theory Spec2Isabelle
  imports Main
begin

section \<open>The process environment: local streams and the remote log sink\<close>

text \<open>
  Go's \<^verbatim>\<open>time.Time\<close> is read as an integer instant, \<^verbatim>\<open>a.Before(b)\<close> as \<open>a < b\<close> and
  \<^verbatim>\<open>a.After(b)\<close> as \<open>b < a\<close>. Go strings and byte slices passed to a writer are byte
  sequences, here \<open>string\<close>.
\<close>

type_synonym time = int

datatype error = ErrClosed | ErrShortWrite

text \<open>
  \<^verbatim>\<open>os.Stdout\<close> and \<^verbatim>\<open>os.Stderr\<close> are files. A write to an open file appends the bytes
  and reports them all written; a write to a closed file writes nothing and returns an
  error.
\<close>

record os_file =
  contents :: string
  closed :: bool

definition os_Write :: "os_file \<Rightarrow> string \<Rightarrow> (nat \<times> error option) \<times> os_file" where
  "os_Write f p =
     (if closed f then ((0, Some ErrClosed), f)
      else ((length p, None), f\<lparr>contents := contents f @ p\<rparr>))"

text \<open>The severities of the remote log sink (\<^verbatim>\<open>logging.Severity\<close>).\<close>

datatype Severity =
  Default | Debug | Info | Notice | Warning | Error | Critical | Alert | Emergency

text \<open>
  \<^verbatim>\<open>logging.Entry\<close>, with the four fields the program sets. A field the program leaves
  out has Go's zero value: the zero time is \<open>0\<close>, the nil label map is the empty map.
\<close>

record Entry =
  Timestamp :: time
  Severity :: Severity
  Payload :: string
  Labels :: "string \<rightharpoonup> string"

record world =
  stdout :: os_file
  stderr :: os_file
  sink :: "Entry list"

text \<open>\<^verbatim>\<open>logger.Log(e)\<close> hands the entry to the remote sink and returns nothing.\<close>

definition Logger_Log :: "Entry \<Rightarrow> world \<Rightarrow> world" where
  "Logger_Log e w = w\<lparr>sink := sink w @ [e]\<rparr>"

text \<open>
  \<^verbatim>\<open>fmt.Fprintln(os.Stderr, ...)\<close>: the line and a newline go to the error stream; the
  program ignores the result of the call.
\<close>

definition Fprintln_Stderr :: "string \<Rightarrow> world \<Rightarrow> world" where
  "Fprintln_Stderr line w = w\<lparr>stderr := snd (os_Write (stderr w) (line @ [CHR 0x0A]))\<rparr>"

definition world0 :: world where
  "world0 = \<lparr>stdout = \<lparr>contents = [], closed = False\<rparr>,
             stderr = \<lparr>contents = [], closed = False\<rparr>,
             sink = []\<rparr>"

section \<open>The lease manager and its expiration timer\<close>

text \<open>
  A timer made by \<^verbatim>\<open>time.AfterFunc\<close>. \<open>active\<close> holds while the timer is pending.
  \<open>C\<close> is the timer's channel: \<^verbatim>\<open>AfterFunc\<close> leaves it nil (\<open>None\<close>); a channel timer
  would hold the queue of delivered fire times. \<open>tid\<close> tells the timers of one run apart.
\<close>

record Timer =
  deadline :: time
  active :: bool
  C :: "time list option"
  tid :: nat

text \<open>\<^verbatim>\<open>t.Stop()\<close>: true when the call stops a pending timer, false when the timer has
  already expired or been stopped.\<close>

definition Timer_Stop :: "Timer \<Rightarrow> bool \<times> Timer" where
  "Timer_Stop t = (active t, t\<lparr>active := False\<rparr>)"

text \<open>
  \<^verbatim>\<open>select { case <-t.C: default: }\<close>: takes one value off the channel when one is
  waiting. A receive from a nil channel is never ready, so the default branch runs.
\<close>

definition drain :: "Timer \<Rightarrow> Timer" where
  "drain t = (case C t of
                None \<Rightarrow> t
              | Some [] \<Rightarrow> t
              | Some (x # q) \<Rightarrow> t\<lparr>C := Some q\<rparr>)"

record Manager =
  guaranteedUntil :: time
  enabled :: bool
  expireTimer :: "Timer option"

text \<open>
  The state of a run: the manager, the clock that \<^verbatim>\<open>time.Now()\<close> reads, the timer
  callbacks that the runtime has started in their own goroutine and that have not yet
  run (by timer id), the number of timers created so far, and the environment.
\<close>

record system =
  mgr :: Manager
  clock :: time
  started :: "nat list"
  created :: nat
  env :: world

definition enable :: "Manager \<Rightarrow> Manager" where
  "enable m = m\<lparr>enabled := True\<rparr>"

definition disable :: "Manager \<Rightarrow> Manager" where
  "disable m = m\<lparr>enabled := False\<rparr>"

text \<open>
  \<^verbatim>\<open>time.AfterFunc(time.Until(expire), f)\<close>: the duration is \<open>expire - clock\<close> and the
  timer is due that long after the clock's reading, at \<open>clock + (expire - clock)\<close>.
\<close>

definition AfterFunc :: "time \<Rightarrow> system \<Rightarrow> Timer \<times> system" where
  "AfterFunc d s =
     (\<lparr>deadline = clock s + d, active = True, C = None, tid = created s\<rparr>,
      s\<lparr>created := Suc (created s)\<rparr>)"

text \<open>
  The first part of \<^verbatim>\<open>expireAfter\<close>: a timer that \<open>Stop\<close> does not stop is drained.
\<close>

definition cancel_previous :: "Timer option \<Rightarrow> Timer option" where
  "cancel_previous tm =
     (case tm of
        None \<Rightarrow> None
      | Some t \<Rightarrow>
          (case Timer_Stop t of
             (True, t') \<Rightarrow> Some t'
           | (False, t') \<Rightarrow> Some (drain t')))"

text \<open>
  \<^verbatim>\<open>expireAfter\<close> is one step of the model: \<^verbatim>\<open>time.Now()\<close> and \<^verbatim>\<open>time.Until\<close> read the
  same clock, and nothing else happens during the call.
\<close>

definition expireAfter :: "time \<Rightarrow> system \<Rightarrow> system" where
  "expireAfter expire0 s =
     (let m = mgr s;
          expire = (if expire0 < guaranteedUntil m then guaranteedUntil m else expire0);
          m1 = m\<lparr>expireTimer := cancel_previous (expireTimer m)\<rparr>
      in if expire < clock s
         then s\<lparr>env := Fprintln_Stderr ''=== LEASE EXPIRED'' (env s), mgr := disable m1\<rparr>
         else (case AfterFunc (expire - clock s) (s\<lparr>mgr := enable m1\<rparr>) of
                 (t, s1) \<Rightarrow> s1\<lparr>mgr := (mgr s1)\<lparr>expireTimer := Some t\<rparr>\<rparr>))"

text \<open>
  \<^verbatim>\<open>NewManager\<close>, without the watcher it starts: the watcher is the source of the
  notifications below. \<open>now0\<close> is the clock at construction.
\<close>

definition NewManager :: "time \<Rightarrow> time \<Rightarrow> world \<Rightarrow> system" where
  "NewManager gu now0 w =
     (let s = \<lparr>mgr = \<lparr>guaranteedUntil = gu, enabled = False, expireTimer = None\<rparr>,
               clock = now0, started = [], created = 0, env = w\<rparr>
      in if now0 < gu then expireAfter gu s else s)"

section \<open>The watcher's notifications and the runs of the system\<close>

record Document =
  ExpireAt :: time
  User :: string
  Reason :: string

text \<open>
  What one notification of the snapshot iterator carries: the record does not exist, it
  exists and \<^verbatim>\<open>DataTo\<close> fails to decode it, or it decodes to a lease document.
\<close>

datatype snapshot = NotExists | Undecodable | Lease Document

text \<open>
  One turn of the loop of \<^verbatim>\<open>watchLease\<close> on a snapshot. Of the two formatted
  diagnostic lines only the fixed prefix is kept; the error text, the remaining
  duration, the user and the reason are not rendered. The results of \<^verbatim>\<open>iter.Next\<close>
  that end the loop (end of stream, cancellation, any other error) leave the manager
  as it is and are not part of the model, nor is the retry loop around it.
\<close>

definition watchLease_snapshot :: "snapshot \<Rightarrow> system \<Rightarrow> system" where
  "watchLease_snapshot sn s =
     (case sn of
        NotExists \<Rightarrow> expireAfter (guaranteedUntil (mgr s)) s
      | Undecodable \<Rightarrow> s\<lparr>env := Fprintln_Stderr ''Failed to parse lease:'' (env s)\<rparr>
      | Lease lease \<Rightarrow>
          (let s1 = expireAfter (ExpireAt lease) s
           in if guaranteedUntil (mgr s1) < ExpireAt lease
              then s1\<lparr>env := Fprintln_Stderr ''=== LEASE EXTENDED'' (env s1)\<rparr>
              else s1))"

text \<open>
  The events of a run. \<open>Notify\<close>: the watcher receives a snapshot and handles it.
  \<open>Advance\<close>: time passes. \<open>TimerFire\<close>: the runtime finds the pending timer due and
  starts its function in a goroutine of its own. \<open>CallbackRun i\<close>: the started function
  of timer \<open>i\<close> runs, prints its line and disables. An event that cannot happen in a
  state has no successor.
\<close>

datatype event = Notify snapshot | Advance nat | TimerFire | CallbackRun nat

fun step :: "event \<Rightarrow> system \<Rightarrow> system option" where
  "step (Notify sn) s = Some (watchLease_snapshot sn s)"
| "step (Advance d) s = Some (s\<lparr>clock := clock s + int d\<rparr>)"
| "step TimerFire s =
     (case expireTimer (mgr s) of
        None \<Rightarrow> None
      | Some t \<Rightarrow>
          if active t \<and> deadline t \<le> clock s
          then Some (s\<lparr>mgr := (mgr s)\<lparr>expireTimer := Some (t\<lparr>active := False\<rparr>)\<rparr>,
                       started := started s @ [tid t]\<rparr>)
          else None)"
| "step (CallbackRun i) s =
     (if i \<in> set (started s)
      then Some (s\<lparr>started := remove1 i (started s),
                   env := Fprintln_Stderr ''=== LEASE EXPIRED'' (env s),
                   mgr := disable (mgr s)\<rparr>)
      else None)"

fun run :: "event list \<Rightarrow> system \<Rightarrow> system option" where
  "run [] s = Some s"
| "run (e # es) s = (case step e s of None \<Rightarrow> None | Some s' \<Rightarrow> run es s')"

text \<open>
  The events of a run in which the watcher only sees leases that expire before the
  floor \<open>gu\<close>, and time passes.
\<close>

fun below_floor :: "time \<Rightarrow> event \<Rightarrow> bool" where
  "below_floor gu (Notify (Lease lease)) = (ExpireAt lease < gu)"
| "below_floor gu (Advance d) = True"
| "below_floor gu e = False"

fun is_call :: "event \<Rightarrow> bool" where
  "is_call (Notify (Lease lease)) = True"
| "is_call (Notify NotExists) = True"
| "is_call e = False"

text \<open>Observations of the manager's timer and of a state.\<close>

definition armed_at :: "time \<Rightarrow> Manager \<Rightarrow> bool" where
  "armed_at d m =
     (case expireTimer m of None \<Rightarrow> False | Some t \<Rightarrow> active t \<and> deadline t = d)"

definition timer_pending :: "Manager \<Rightarrow> bool" where
  "timer_pending m = (case expireTimer m of None \<Rightarrow> False | Some t \<Rightarrow> active t)"

definition observe :: "system \<Rightarrow> bool \<times> time \<times> Timer option \<times> nat list" where
  "observe s = (enabled (mgr s), clock s, expireTimer (mgr s), started s)"

text \<open>
  The invariant of the runs: no timer is due before the floor, and while the floor has
  not been reached no callback has been started and the signal is on.
\<close>

definition floor_inv :: "system \<Rightarrow> bool" where
  "floor_inv s =
     ((case expireTimer (mgr s) of
         None \<Rightarrow> True
       | Some t \<Rightarrow> guaranteedUntil (mgr s) \<le> deadline t) \<and>
      (if clock s < guaranteedUntil (mgr s) then started s = [] \<and> enabled (mgr s) else True))"

section \<open>Gated writers\<close>

text \<open>An \<^verbatim>\<open>io.Writer\<close>: the bytes written and the error, and the environment after.\<close>

type_synonym writer = "string \<Rightarrow> world \<Rightarrow> (nat \<times> error option) \<times> world"

definition Stdout_Write :: writer where
  "Stdout_Write p w = (case os_Write (stdout w) p of (r, f) \<Rightarrow> (r, w\<lparr>stdout := f\<rparr>))"

definition Stderr_Write :: writer where
  "Stderr_Write p w = (case os_Write (stderr w) p of (r, f) \<Rightarrow> (r, w\<lparr>stderr := f\<rparr>))"

text \<open>
  \<^verbatim>\<open>logger.StandardLogger(sev).Writer()\<close>: each write becomes one entry of that
  severity with the bytes as payload, and reports all bytes written.
\<close>

definition severityWriter :: "Severity \<Rightarrow> writer" where
  "severityWriter sev p w =
     ((length p, None),
      Logger_Log \<lparr>Timestamp = 0, Severity = sev, Payload = p, Labels = Map.empty\<rparr> w)"

text \<open>
  \<^verbatim>\<open>io.MultiWriter\<close>: writes to each writer in turn, stops at the first error, and
  turns a short write into \<^verbatim>\<open>io.ErrShortWrite\<close>.
\<close>

fun MultiWriter :: "writer list \<Rightarrow> writer" where
  "MultiWriter [] p w = ((length p, None), w)"
| "MultiWriter (wr # wrs) p w =
     (case wr p w of
        ((n, Some e), w1) \<Rightarrow> ((n, Some e), w1)
      | ((n, None), w1) \<Rightarrow>
          if n \<noteq> length p then ((n, Some ErrShortWrite), w1)
          else MultiWriter wrs p w1)"

text \<open>
  \<^verbatim>\<open>toggleableWriter\<close>. Its \<^verbatim>\<open>leaser\<close> is a pointer to the manager: the write takes
  the manager as it is at the time of the call. A nil \<^verbatim>\<open>fallback\<close> is \<open>None\<close>.
\<close>

record toggleableWriter =
  upstream :: writer
  fallback :: "writer option"

definition toggleableWriter_Write :: "toggleableWriter \<Rightarrow> Manager \<Rightarrow> writer" where
  "toggleableWriter_Write tw m p w =
     (if enabled m then upstream tw p w
      else (case fallback tw of
              Some fb \<Rightarrow> fb p w
            | None \<Rightarrow> ((length p, None), w)))"

definition StdoutWriter :: toggleableWriter where
  "StdoutWriter = \<lparr>upstream = MultiWriter [Stdout_Write, severityWriter Info],
                   fallback = Some Stdout_Write\<rparr>"

definition StderrWriter :: writer where
  "StderrWriter = MultiWriter [Stderr_Write, severityWriter Error]"

definition Manager_Write :: "Manager \<Rightarrow> writer" where
  "Manager_Write m p w =
     (if enabled m then severityWriter Info p w else ((length p, None), w))"

section \<open>Slices and their backing arrays\<close>

text \<open>
  A Go slice is a header: the address of a backing array, a length and a capacity. The
  arrays live in a store, a list indexed by address; an array is stored as the cells
  written so far. Two headers with the same address share the array, and an \<^verbatim>\<open>append\<close>
  within capacity writes into it. The nil slice has length and capacity zero.
\<close>

record slice =
  ptr :: nat
  len :: nat
  cap :: nat

type_synonym 'a heap = "'a list list"

definition nil_slice :: slice where
  "nil_slice = \<lparr>ptr = 0, len = 0, cap = 0\<rparr>"

definition slice_read :: "'a heap \<Rightarrow> slice \<Rightarrow> 'a list" where
  "slice_read H s = (if ptr s < length H then take (len s) (H ! ptr s) else [])"

text \<open>
  \<^verbatim>\<open>append(s, xs...)\<close>. Within capacity the elements are written into the array of \<open>s\<close>
  after its first \<open>len s\<close> cells. Otherwise a new array is allocated at a fresh address
  with the elements of \<open>s\<close> followed by \<open>xs\<close>; \<open>gr\<close> is the runtime's choice of the new
  capacity, from the old capacity and the length needed.
\<close>

definition go_append ::
  "(nat \<Rightarrow> nat \<Rightarrow> nat) \<Rightarrow> 'a heap \<Rightarrow> slice \<Rightarrow> 'a list \<Rightarrow> slice \<times> 'a heap" where
  "go_append gr H s xs =
     (let n = len s + length xs
      in if n \<le> cap s
         then (s\<lparr>len := n\<rparr>,
               if xs = [] then H
               else H[ptr s := take (len s) (H ! ptr s) @ xs @ drop n (H ! ptr s)])
         else (\<lparr>ptr = length H, len = n, cap = gr (cap s) n\<rparr>,
               H @ [slice_read H s @ xs]))"

text \<open>\<^verbatim>\<open>slices.Clone(s)\<close> is \<^verbatim>\<open>append(s[:0:0], s...)\<close>.\<close>

definition slices_Clone :: "(nat \<Rightarrow> nat \<Rightarrow> nat) \<Rightarrow> 'a heap \<Rightarrow> slice \<Rightarrow> slice \<times> 'a heap" where
  "slices_Clone gr H s = go_append gr H (s\<lparr>len := 0, cap := 0\<rparr>) (slice_read H s)"

text \<open>A slice that the program can hold: its cells are inside an allocated array.\<close>

definition valid_slice :: "'a heap \<Rightarrow> slice \<Rightarrow> bool" where
  "valid_slice H s = (len s = 0 \<or> (ptr s < length H \<and> len s \<le> length (H ! ptr s)))"

section \<open>The structured log handler\<close>

text \<open>
  \<^verbatim>\<open>slog.Level\<close> is an integer. \<^verbatim>\<open>slog.Attr\<close> is a key and a value; the type of
  values is left open (\<open>'v\<close>), and \<^verbatim>\<open>Value.String()\<close> is a parameter \<open>vstr\<close> of the
  handler. \<^verbatim>\<open>slog.Record\<close> is a value with its attributes in order; \<^verbatim>\<open>AddAttrs\<close> adds
  at the end.
\<close>

definition LevelDebug :: int where "LevelDebug = -4"
definition LevelInfo :: int where "LevelInfo = 0"
definition LevelWarn :: int where "LevelWarn = 4"
definition LevelError :: int where "LevelError = 8"

record 'v Attr =
  Key :: string
  Value :: 'v

record 'v slog_Record =
  Time :: time
  Message :: string
  Level :: int
  Attrs :: "'v Attr list"

definition AddAttrs :: "'v slog_Record \<Rightarrow> 'v Attr list \<Rightarrow> 'v slog_Record" where
  "AddAttrs r as = r\<lparr>Attrs := Attrs r @ as\<rparr>"

text \<open>The store of the backing arrays of attribute lists and of group lists.\<close>

record 'v store =
  attr_heap :: "'v Attr heap"
  group_heap :: "string heap"
  growslice :: "nat \<Rightarrow> nat \<Rightarrow> nat"

text \<open>
  \<^verbatim>\<open>slogger\<close>. Its \<^verbatim>\<open>logger\<close> is the remote sink of the environment and its \<^verbatim>\<open>lw\<close>
  is a pointer to the manager, passed to \<open>Handle\<close> as it is at the time of the call.
\<close>

record 'v slogger =
  stdoutLogger :: "'v slog_Record \<Rightarrow> world \<Rightarrow> error option \<times> world"
  attrs :: slice
  groups :: slice

definition Enabled :: "'v slogger \<Rightarrow> int \<Rightarrow> bool" where
  "Enabled s l = True"

definition getSeverity :: "int \<Rightarrow> Severity" where
  "getSeverity l =
     (if l = LevelDebug then Debug
      else if l = LevelInfo then Info
      else if l = LevelWarn then Warning
      else if l = LevelError then Error
      else Default)"

text \<open>The label map: each attribute in order, a later key replacing an earlier one.\<close>

definition build_labels :: "('v \<Rightarrow> string) \<Rightarrow> 'v Attr list \<Rightarrow> (string \<rightharpoonup> string)" where
  "build_labels vstr as = foldl (\<lambda>labels a. labels(Key a \<mapsto> vstr (Value a))) Map.empty as"

text \<open>The record after \<^verbatim>\<open>r.AddAttrs(s.attrs...)\<close>.\<close>

definition with_handler_attrs :: "'v slogger \<Rightarrow> 'v store \<Rightarrow> 'v slog_Record \<Rightarrow> 'v slog_Record" where
  "with_handler_attrs s S r = AddAttrs r (slice_read (attr_heap S) (attrs s))"

text \<open>
  \<^verbatim>\<open>Handle\<close>: the handler's attributes are added to the record and the label map is
  built; the record goes to the local handler, whose error ends the call; the entry is
  logged unless the signal is off and the level is below \<open>LevelError\<close>.
\<close>

definition Handle ::
  "('v \<Rightarrow> string) \<Rightarrow> 'v slogger \<Rightarrow> 'v store \<Rightarrow> Manager \<Rightarrow> 'v slog_Record \<Rightarrow> world
     \<Rightarrow> error option \<times> world" where
  "Handle vstr s S m r0 w =
     (let r = with_handler_attrs s S r0;
          labels = build_labels vstr (Attrs r)
      in case stdoutLogger s r w of
           (Some err, w1) \<Rightarrow> (Some err, w1)
         | (None, w1) \<Rightarrow>
             if \<not> enabled m \<and> Level r < LevelError then (None, w1)
             else (None, Logger_Log \<lparr>Timestamp = Time r, Severity = getSeverity (Level r),
                                      Payload = Message r, Labels = labels\<rparr> w1))"

definition WithAttrs :: "'v slogger \<Rightarrow> 'v Attr list \<Rightarrow> 'v store \<Rightarrow> 'v slogger \<times> 'v store" where
  "WithAttrs s as S =
     (case slices_Clone (growslice S) (attr_heap S) (attrs s) of
        (c1, H1) \<Rightarrow>
          (case go_append (growslice S) H1 c1 as of
             (c2, H2) \<Rightarrow> (s\<lparr>attrs := c2\<rparr>, S\<lparr>attr_heap := H2\<rparr>)))"

definition WithGroup :: "'v slogger \<Rightarrow> string \<Rightarrow> 'v store \<Rightarrow> 'v slogger \<times> 'v store" where
  "WithGroup s g S =
     (case slices_Clone (growslice S) (group_heap S) (groups s) of
        (c1, H1) \<Rightarrow>
          (case go_append (growslice S) H1 c1 [g] of
             (c2, H2) \<Rightarrow> (s\<lparr>groups := c2\<rparr>, S\<lparr>group_heap := H2\<rparr>)))"

text \<open>
  \<^verbatim>\<open>slog.NewTextHandler(os.Stdout, nil)\<close>: the handler writes the text of the record to
  the standard output and returns the error of that write. The text format is a
  parameter \<open>render\<close>.
\<close>

definition TextHandler_Handle ::
  "('v slog_Record \<Rightarrow> string) \<Rightarrow> 'v slog_Record \<Rightarrow> world \<Rightarrow> error option \<times> world" where
  "TextHandler_Handle render r w =
     (case Stdout_Write (render r) w of ((n, err), w1) \<Rightarrow> (err, w1))"

definition SlogLogger :: "('v slog_Record \<Rightarrow> string) \<Rightarrow> 'v slogger" where
  "SlogLogger render =
     \<lparr>stdoutLogger = TextHandler_Handle render, attrs = nil_slice, groups = nil_slice\<rparr>"

text \<open>
  A handler, a store and a record to evaluate the definitions on, after the demo
  command: the handler already has one attribute, in an array with room for four.
\<close>

definition demo_store :: "string store" where
  "demo_store = \<lparr>attr_heap = [[\<lparr>Key = ''app'', Value = ''demo''\<rparr>]], group_heap = [],
                  growslice = (\<lambda>c n. 2 * n)\<rparr>"

definition demo_handler :: "string slogger" where
  "demo_handler = (SlogLogger Message)\<lparr>attrs := \<lparr>ptr = 0, len = 1, cap = 4\<rparr>\<rparr>"

definition demo_record :: "int \<Rightarrow> string slog_Record" where
  "demo_record l = \<lparr>Time = 7, Message = ''This is a log.'', Level = l,
                     Attrs = [\<lparr>Key = ''string'', Value = ''value''\<rparr>]\<rparr>"

section \<open>Properties of the expiration scheduler\<close>

lemma expireAfter_enabled:
  "enabled (mgr (expireAfter c s)) = (clock s \<le> max c (guaranteedUntil (mgr s)))"
  by (auto simp: expireAfter_def Let_def AfterFunc_def enable_def disable_def max_def
           split: prod.splits)

lemma expireAfter_timer:
  "expireTimer (mgr (expireAfter c s)) =
     (if clock s \<le> max c (guaranteedUntil (mgr s))
      then Some \<lparr>deadline = max c (guaranteedUntil (mgr s)), active = True, C = None, tid = created s\<rparr>
      else cancel_previous (expireTimer (mgr s)))"
  by (auto simp: expireAfter_def Let_def AfterFunc_def enable_def disable_def max_def)

lemma expireAfter_frame:
  "guaranteedUntil (mgr (expireAfter c s)) = guaranteedUntil (mgr s)"
  "clock (expireAfter c s) = clock s"
  "started (expireAfter c s) = started s"
  by (auto simp: expireAfter_def Let_def AfterFunc_def enable_def disable_def)

lemma watch_frame:
  "guaranteedUntil (mgr (watchLease_snapshot sn s)) = guaranteedUntil (mgr s)"
  "clock (watchLease_snapshot sn s) = clock s"
  "started (watchLease_snapshot sn s) = started s"
  by (auto simp: watchLease_snapshot_def Let_def expireAfter_frame split: snapshot.splits)

lemma step_guaranteedUntil:
  "step e s = Some s' \<Longrightarrow> guaranteedUntil (mgr s') = guaranteedUntil (mgr s)"
  by (cases e) (auto simp: watch_frame disable_def split: option.splits if_splits)

lemma step_clock: "step e s = Some s' \<Longrightarrow> clock s \<le> clock s'"
  by (cases e) (auto simp: watch_frame split: option.splits if_splits)

lemma run_guaranteedUntil:
  "run evs s = Some s' \<Longrightarrow> guaranteedUntil (mgr s') = guaranteedUntil (mgr s)"
proof (induction evs arbitrary: s)
  case Nil
  then show ?case by simp
next
  case (Cons e evs)
  then obtain s1 where 1: "step e s = Some s1" and 2: "run evs s1 = Some s'"
    by (auto split: option.splits)
  from Cons.IH [OF 2] step_guaranteedUntil [OF 1] show ?case by simp
qed

lemma run_clock: "run evs s = Some s' \<Longrightarrow> clock s \<le> clock s'"
proof (induction evs arbitrary: s)
  case Nil
  then show ?case by simp
next
  case (Cons e evs)
  then obtain s1 where 1: "step e s = Some s1" and 2: "run evs s1 = Some s'"
    by (auto split: option.splits)
  from Cons.IH [OF 2] step_clock [OF 1] show ?case by simp
qed

lemma below_floor_step:
  assumes "step e s = Some s1" "below_floor (guaranteedUntil (mgr s)) e"
    and "clock s1 < guaranteedUntil (mgr s)"
  shows "enabled (mgr s1) = (enabled (mgr s) \<or> is_call e)"
proof (cases e)
  case (Notify sn)
  with assms(2) obtain lease where sn: "sn = Lease lease" and lt: "ExpireAt lease < guaranteedUntil (mgr s)"
    by (cases sn) auto
  from assms(1,3) Notify sn lt show ?thesis
    by (auto simp: watchLease_snapshot_def Let_def expireAfter_enabled expireAfter_frame)
next
  case (Advance d)
  with assms(1) show ?thesis by auto
next
  case TimerFire
  with assms(2) show ?thesis by simp
next
  case (CallbackRun i)
  with assms(2) show ?thesis by simp
qed

lemma below_floor_run:
  "run evs s = Some s' \<Longrightarrow> list_all (below_floor (guaranteedUntil (mgr s))) evs \<Longrightarrow>
   clock s' < guaranteedUntil (mgr s) \<Longrightarrow>
   enabled (mgr s') = (enabled (mgr s) \<or> list_ex is_call evs)"
proof (induction evs arbitrary: s)
  case Nil
  then show ?case by simp
next
  case (Cons e evs)
  then obtain s1 where 1: "step e s = Some s1" and 2: "run evs s1 = Some s'"
    by (auto split: option.splits)
  have g: "guaranteedUntil (mgr s1) = guaranteedUntil (mgr s)"
    by (rule step_guaranteedUntil [OF 1])
  have c: "clock s1 < guaranteedUntil (mgr s)"
    using run_clock [OF 2] Cons.prems(3) by simp
  have e: "enabled (mgr s1) = (enabled (mgr s) \<or> is_call e)"
    using below_floor_step [OF 1 _ c] Cons.prems(2) by simp
  have "enabled (mgr s') = (enabled (mgr s1) \<or> list_ex is_call evs)"
    using Cons.IH [OF 2] Cons.prems(2,3) g by simp
  with e show ?case by auto
qed

lemma below_floor_step_armed:
  assumes "step e s = Some s1" "below_floor (guaranteedUntil (mgr s)) e"
    and "clock s1 < guaranteedUntil (mgr s)"
  shows "armed_at (guaranteedUntil (mgr s)) (mgr s1)
           = (armed_at (guaranteedUntil (mgr s)) (mgr s) \<or> is_call e)"
proof (cases e)
  case (Notify sn)
  with assms(2) obtain lease where sn: "sn = Lease lease" and lt: "ExpireAt lease < guaranteedUntil (mgr s)"
    by (cases sn) auto
  from assms(1,3) Notify sn lt show ?thesis
    by (auto simp: watchLease_snapshot_def Let_def expireAfter_timer expireAfter_frame armed_at_def)
next
  case (Advance d)
  with assms(1) show ?thesis by (auto simp: armed_at_def)
next
  case TimerFire
  with assms(2) show ?thesis by simp
next
  case (CallbackRun i)
  with assms(2) show ?thesis by simp
qed

lemma below_floor_run_armed:
  "run evs s = Some s' \<Longrightarrow> list_all (below_floor (guaranteedUntil (mgr s))) evs \<Longrightarrow>
   clock s' < guaranteedUntil (mgr s) \<Longrightarrow>
   armed_at (guaranteedUntil (mgr s)) (mgr s')
     = (armed_at (guaranteedUntil (mgr s)) (mgr s) \<or> list_ex is_call evs)"
proof (induction evs arbitrary: s)
  case Nil
  then show ?case by simp
next
  case (Cons e evs)
  then obtain s1 where 1: "step e s = Some s1" and 2: "run evs s1 = Some s'"
    by (auto split: option.splits)
  have g: "guaranteedUntil (mgr s1) = guaranteedUntil (mgr s)"
    by (rule step_guaranteedUntil [OF 1])
  have c: "clock s1 < guaranteedUntil (mgr s)"
    using run_clock [OF 2] Cons.prems(3) by simp
  have e: "armed_at (guaranteedUntil (mgr s)) (mgr s1)
             = (armed_at (guaranteedUntil (mgr s)) (mgr s) \<or> is_call e)"
    using below_floor_step_armed [OF 1 _ c] Cons.prems(2) by simp
  have "armed_at (guaranteedUntil (mgr s)) (mgr s')
          = (armed_at (guaranteedUntil (mgr s)) (mgr s1) \<or> list_ex is_call evs)"
    using Cons.IH [OF 2] Cons.prems(2,3) g by simp
  with e show ?case by auto
qed

lemma cancel_previous_deadline:
  "cancel_previous tm = Some t' \<Longrightarrow> \<exists>t. tm = Some t \<and> deadline t' = deadline t"
  by (auto simp: cancel_previous_def Timer_Stop_def drain_def
           split: option.splits list.splits if_splits bool.splits)

lemma floor_inv_expireAfter: "floor_inv s \<Longrightarrow> floor_inv (expireAfter c s)"
  unfolding floor_inv_def
  by (auto simp: expireAfter_timer expireAfter_frame expireAfter_enabled
           split: option.splits if_splits dest!: cancel_previous_deadline)

lemma floor_inv_env: "floor_inv (s\<lparr>env := w\<rparr>) = floor_inv s"
  by (simp add: floor_inv_def split: option.splits)

lemma floor_inv_watch: "floor_inv s \<Longrightarrow> floor_inv (watchLease_snapshot sn s)"
  by (auto simp: watchLease_snapshot_def Let_def floor_inv_env floor_inv_expireAfter split: snapshot.splits)

lemma floor_inv_step: "step e s = Some s' \<Longrightarrow> floor_inv s \<Longrightarrow> floor_inv s'"
proof (cases e)
  case (Notify sn)
  then show "step e s = Some s' \<Longrightarrow> floor_inv s \<Longrightarrow> floor_inv s'"
    by (auto simp: floor_inv_watch)
next
  case (Advance d)
  then show "step e s = Some s' \<Longrightarrow> floor_inv s \<Longrightarrow> floor_inv s'"
    by (auto simp: floor_inv_def split: option.splits if_splits)
next
  case TimerFire
  then show "step e s = Some s' \<Longrightarrow> floor_inv s \<Longrightarrow> floor_inv s'"
    by (auto simp: floor_inv_def split: option.splits if_splits)
next
  case (CallbackRun i)
  then show "step e s = Some s' \<Longrightarrow> floor_inv s \<Longrightarrow> floor_inv s'"
    by (auto simp: floor_inv_def disable_def split: option.splits if_splits)
qed

lemma floor_inv_run: "run evs s = Some s' \<Longrightarrow> floor_inv s \<Longrightarrow> floor_inv s'"
proof (induction evs arbitrary: s)
  case Nil
  then show ?case by simp
next
  case (Cons e evs)
  then obtain s1 where 1: "step e s = Some s1" and 2: "run evs s1 = Some s'"
    by (auto split: option.splits)
  from Cons.IH [OF 2 floor_inv_step [OF 1 Cons.prems(2)]] show ?case .
qed

lemma floor_inv_NewManager: "floor_inv (NewManager gu now0 w)"
proof (cases "now0 < gu")
  case True
  then show ?thesis
    by (simp add: NewManager_def Let_def floor_inv_def expireAfter_timer expireAfter_frame expireAfter_enabled)
next
  case False
  then show ?thesis by (simp add: NewManager_def Let_def floor_inv_def)
qed

lemma NewManager_guaranteedUntil: "guaranteedUntil (mgr (NewManager gu now0 w)) = gu"
  by (simp add: NewManager_def Let_def expireAfter_frame)

text \<open>
  In a run that starts with \<open>NewManager\<close>, the signal is on and no callback has been
  started at every state whose clock is before the floor.
\<close>

lemma enabled_before_floor:
  assumes "run evs (NewManager gu now0 w) = Some s" "clock s < gu"
  shows "enabled (mgr s) \<and> started s = []"
proof -
  have "floor_inv s" by (rule floor_inv_run [OF assms(1) floor_inv_NewManager])
  moreover have "guaranteedUntil (mgr s) = gu"
    using run_guaranteedUntil [OF assms(1)] by (simp add: NewManager_guaranteedUntil)
  ultimately show ?thesis using assms(2) by (simp add: floor_inv_def)
qed

lemma run_append: "run (xs @ ys) s = (case run xs s of None \<Rightarrow> None | Some s1 \<Rightarrow> run ys s1)"
  by (induction xs arbitrary: s) (auto split: option.splits)

lemma cancel_previous_inactive: "cancel_previous tm = Some t \<Longrightarrow> \<not> active t"
  by (auto simp: cancel_previous_def Timer_Stop_def drain_def
           split: option.splits list.splits if_splits bool.splits)

lemma fire_at_deadline:
  assumes "expireTimer (mgr s) = Some \<lparr>deadline = d, active = True, C = None, tid = i\<rparr>"
    and "clock s \<le> d"
  shows "\<exists>s3. run [Advance (nat (d - clock s)), TimerFire, CallbackRun i] s = Some s3
              \<and> clock s3 = d \<and> \<not> enabled (mgr s3)"
  using assms by (simp add: disable_def)

subsection \<open>The floor is fixed and is never undercut\<close>

text \<open>
  Claim C2. No event of a run changes \<open>guaranteedUntil\<close> (the writers and the log
  handler only read the manager). In a run in which the watcher only sees leases
  expiring before the floor, and time passes, the signal is on at every state whose
  clock is still before the floor, as soon as it was on at the start or one such lease
  has been seen: none of these calls of \<open>expireAfter\<close> turns it off, and after any of
  them the timer is pending and due exactly at the floor. The statement is about any
  run of this kind, so it holds at every prefix of one. (\<open>enabled_before_floor\<close> above
  says more for the runs that start with \<open>NewManager\<close>: whatever the watcher sees and
  whatever fires, the signal is on while the clock is before the floor.)
\<close>

theorem floor_never_undercut:
  assumes "run evs s = Some s'"
  shows "guaranteedUntil (mgr s') = guaranteedUntil (mgr s) \<and>
         (list_all (below_floor (guaranteedUntil (mgr s))) evs \<and>
          clock s' < guaranteedUntil (mgr s) \<and> (enabled (mgr s) \<or> list_ex is_call evs)
          \<longrightarrow> enabled (mgr s')) \<and>
         (list_all (below_floor (guaranteedUntil (mgr s))) evs \<and>
          clock s' < guaranteedUntil (mgr s) \<and> list_ex is_call evs
          \<longrightarrow> armed_at (guaranteedUntil (mgr s)) (mgr s'))"
  using run_guaranteedUntil [OF assms] below_floor_run [OF assms]
    below_floor_run_armed [OF assms] by blast

theorem floor_never_undercut_witness:
  "map_option (\<lambda>s'. (guaranteedUntil (mgr s'), clock s', enabled (mgr s')))
     (run [Notify (Lease \<lparr>ExpireAt = 3, User = [], Reason = []\<rparr>), Advance 2,
           Notify (Lease \<lparr>ExpireAt = 1, User = [], Reason = []\<rparr>)]
          (NewManager 10 0 world0))
     = Some (10, 2, True) \<and>
   list_all (below_floor 10)
     [Notify (Lease \<lparr>ExpireAt = 3, User = [], Reason = []\<rparr>), Advance 2,
      Notify (Lease \<lparr>ExpireAt = 1, User = [], Reason = []\<rparr>)]"
proof -
  let ?evs = "[Notify (Lease \<lparr>ExpireAt = 3, User = [], Reason = []\<rparr>), Advance 2,
               Notify (Lease \<lparr>ExpireAt = 1, User = [], Reason = []\<rparr>)]"
  let ?s = "NewManager 10 0 world0"
  have g: "guaranteedUntil (mgr ?s) = 10"
    by (simp add: NewManager_guaranteedUntil)
  have c: "map_option clock (run ?evs ?s) = Some 2"
    by code_simp
  then obtain s' where r: "run ?evs ?s = Some s'" and c': "clock s' = 2"
    by auto
  have b: "list_all (below_floor 10) ?evs"
    by simp
  have e: "list_ex is_call ?evs"
    by simp
  have "guaranteedUntil (mgr s') = 10 \<and> enabled (mgr s')"
    using floor_never_undercut [OF r] g c' b e by simp
  with r c' b show ?thesis by simp
qed

subsection \<open>A notification that the lease record is absent\<close>

text \<open>
  Claim C5. At any state \<open>s\<close> of a run that starts with \<open>NewManager\<close>, the watcher
  answers a notification that the record does not exist by \<open>expireAfter\<close> of the floor.
  If the floor is already past, the signal is off after the call and no timer is
  pending. Otherwise the signal is on and the timer is due exactly at the floor; the
  signal is on at every later state whose clock is before the floor, whatever happens
  in between; and once the clock reaches the floor the timer can fire and its callback
  turns the signal off.
\<close>

theorem absence_handling:
  assumes "run evs (NewManager gu now0 w) = Some s"
  shows "watchLease_snapshot NotExists s = expireAfter gu s \<and>
         enabled (mgr (expireAfter gu s)) = (clock s \<le> gu) \<and>
         (if clock s \<le> gu then armed_at gu (mgr (expireAfter gu s))
          else \<not> timer_pending (mgr (expireAfter gu s))) \<and>
         (\<forall>evs' s'. run evs' (expireAfter gu s) = Some s' \<and> clock s' < gu \<longrightarrow> enabled (mgr s')) \<and>
         (clock s \<le> gu \<longrightarrow>
            (\<exists>s3. run [Advance (nat (gu - clock s)), TimerFire, CallbackRun (created s)]
                     (expireAfter gu s) = Some s3
                   \<and> clock s3 = gu \<and> \<not> enabled (mgr s3)))"
proof -
  have g: "guaranteedUntil (mgr s) = gu"
    using run_guaranteedUntil [OF assms] by (simp add: NewManager_guaranteedUntil)
  have 1: "watchLease_snapshot NotExists s = expireAfter gu s"
    by (simp add: watchLease_snapshot_def g)
  have 2: "enabled (mgr (expireAfter gu s)) = (clock s \<le> gu)"
    by (simp add: expireAfter_enabled g)
  have 3: "if clock s \<le> gu then armed_at gu (mgr (expireAfter gu s))
          else \<not> timer_pending (mgr (expireAfter gu s))"
    by (auto simp: armed_at_def timer_pending_def expireAfter_timer g
             split: option.splits dest: cancel_previous_inactive)
  have r: "run (evs @ [Notify NotExists]) (NewManager gu now0 w) = Some (expireAfter gu s)"
    by (simp add: run_append assms 1)
  have 4: "enabled (mgr s')" if "run evs' (expireAfter gu s) = Some s'" "clock s' < gu" for evs' s'
  proof -
    have "run ((evs @ [Notify NotExists]) @ evs') (NewManager gu now0 w) = Some s'"
      using r that(1) by (simp only: run_append option.case)
    from enabled_before_floor [OF this that(2)] show ?thesis by simp
  qed
  have 5: "\<exists>s3. run [Advance (nat (gu - clock s)), TimerFire, CallbackRun (created s)]
                     (expireAfter gu s) = Some s3
                   \<and> clock s3 = gu \<and> \<not> enabled (mgr s3)" if "clock s \<le> gu"
    using fire_at_deadline [of "expireAfter gu s" gu "created s"] that
    by (simp add: expireAfter_timer expireAfter_frame g)
  from 1 2 3 4 5 show ?thesis by blast
qed

theorem absence_handling_witness:
  "enabled (mgr (watchLease_snapshot NotExists (the (run [Advance 3] (NewManager 10 0 world0)))))
   \<and> armed_at 10 (mgr (watchLease_snapshot NotExists (the (run [Advance 3] (NewManager 10 0 world0)))))
   \<and> clock (the (run [Advance 3] (NewManager 10 0 world0))) \<le> 10"
proof -
  let ?s = "the (run [Advance 3] (NewManager 10 0 world0))"
  have r: "run [Advance 3] (NewManager 10 0 world0) = Some ?s"
    by simp
  have c: "clock ?s \<le> 10"
    by code_simp
  from absence_handling [OF r] c show ?thesis
    by simp
qed

subsection \<open>A callback that was started before the lease is extended\<close>

text \<open>
  Claim C6, at a run that breaks it. The manager is made at time 0 with the floor at 5;
  at time 5 the timer fires and its callback is started; the watcher then sees a lease
  that expires at 20. \<open>Stop\<close> returns false, the receive from the timer's nil channel
  does nothing, the signal is turned on and a new timer (id 1) is armed for 20, while
  the callback of timer 0 is still to run. When it runs, the signal is off at time 5,
  with the lease valid until 20 and the new timer still pending.
\<close>

theorem stale_disable_after_reenable:
  "map_option observe
     (run [Advance 5, TimerFire, Notify (Lease \<lparr>ExpireAt = 20, User = [], Reason = []\<rparr>)]
          (NewManager 5 0 world0))
     = Some (True, 5, Some \<lparr>deadline = 20, active = True, C = None, tid = 1\<rparr>, [0]) \<and>
   map_option observe
     (run [Advance 5, TimerFire, Notify (Lease \<lparr>ExpireAt = 20, User = [], Reason = []\<rparr>),
           CallbackRun 0]
          (NewManager 5 0 world0))
     = Some (False, 5, Some \<lparr>deadline = 20, active = True, C = None, tid = 1\<rparr>, [])"
  by code_simp

subsection \<open>The signal after \<open>expireAfter\<close>\<close>

text \<open>
  Claim C1, as the code has it. After \<open>expireAfter c\<close> the signal is on exactly when the
  later of \<open>c\<close> and the floor is not before the clock: an expiration equal to the
  clock's reading enables, and the new timer is due at that very instant. The call
  disables only when the expiration is strictly in the past, and then leaves the
  previous timer stopped.
\<close>

theorem expireAfter_enabled_unless_past:
  "enabled (mgr (expireAfter c s)) = (clock s \<le> max c (guaranteedUntil (mgr s))) \<and>
   expireTimer (mgr (expireAfter c s)) =
     (if clock s \<le> max c (guaranteedUntil (mgr s))
      then Some \<lparr>deadline = max c (guaranteedUntil (mgr s)), active = True, C = None,
                 tid = created s\<rparr>
      else cancel_previous (expireTimer (mgr s)))"
  by (simp only: expireAfter_enabled expireAfter_timer)

text \<open>
  Claim C1 as stated, with the strict comparison, fails when the expiration equals the
  clock: a manager whose floor 0 is past at time 10 is told to expire at 10, and the
  signal is on although 10 is not after 10.
\<close>

theorem expireAfter_at_now_counterexample:
  "enabled (mgr (expireAfter 10 (NewManager 0 10 world0))) \<and>
   \<not> (clock (NewManager 0 10 world0) < max 10 (guaranteedUntil (mgr (NewManager 0 10 world0))))"
  by code_simp

section \<open>Properties of the gated writers\<close>

lemma Stdout_Write_open:
  "\<not> closed (stdout w) \<Longrightarrow>
   Stdout_Write p w = ((length p, None), w\<lparr>stdout := (stdout w)\<lparr>contents := contents (stdout w) @ p\<rparr>\<rparr>)"
  by (simp add: Stdout_Write_def os_Write_def)

lemma Stdout_Write_closed:
  "closed (stdout w) \<Longrightarrow> Stdout_Write p w = ((0, Some ErrClosed), w)"
  by (simp add: Stdout_Write_def os_Write_def)

lemma StdoutWriter_closed:
  "closed (stdout w) \<Longrightarrow> toggleableWriter_Write StdoutWriter m p w = ((0, Some ErrClosed), w)"
  by (simp add: toggleableWriter_Write_def StdoutWriter_def Stdout_Write_closed)

lemma StdoutWriter_open:
  "\<not> closed (stdout w) \<Longrightarrow>
   toggleableWriter_Write StdoutWriter m p w =
     ((length p, None),
      w\<lparr>stdout := (stdout w)\<lparr>contents := contents (stdout w) @ p\<rparr>,
        sink := (if enabled m
                 then sink w @ [\<lparr>Timestamp = 0, Severity = Info, Payload = p, Labels = Map.empty\<rparr>]
                 else sink w)\<rparr>)"
  by (simp add: toggleableWriter_Write_def StdoutWriter_def Stdout_Write_open
                severityWriter_def Logger_Log_def)

subsection \<open>The primary output writer\<close>

text \<open>
  Claim C3. Every buffer written through the writer of \<open>StdoutWriter\<close>, that is every
  call of its \<open>Write\<close> that returns no error, has put the bytes on the standard output
  whatever the signal is, and has handed them to the remote sink, as one entry of
  severity Info, exactly when the signal was on at the call. (When the standard output
  refuses the write, the call returns that error and nothing is forwarded: see
  \<open>StdoutWriter_closed\<close>.)
\<close>

theorem primary_writer_gating:
  assumes "snd (fst (toggleableWriter_Write StdoutWriter m p w)) = None"
  shows "toggleableWriter_Write StdoutWriter m p w =
     ((length p, None),
      w\<lparr>stdout := (stdout w)\<lparr>contents := contents (stdout w) @ p\<rparr>,
        sink := (if enabled m
                 then sink w @ [\<lparr>Timestamp = 0, Severity = Info, Payload = p, Labels = Map.empty\<rparr>]
                 else sink w)\<rparr>)"
proof (cases "closed (stdout w)")
  case True
  with assms show ?thesis by (simp add: StdoutWriter_closed)
next
  case False
  then show ?thesis by (rule StdoutWriter_open)
qed

theorem primary_writer_gating_witness:
  "toggleableWriter_Write StdoutWriter \<lparr>guaranteedUntil = 0, enabled = True, expireTimer = None\<rparr>
     ''hi'' world0 =
     ((2, None),
      world0\<lparr>stdout := \<lparr>contents = ''hi'', closed = False\<rparr>,
             sink := [\<lparr>Timestamp = 0, Severity = Info, Payload = ''hi'', Labels = Map.empty\<rparr>]\<rparr>)
   \<and>
   toggleableWriter_Write StdoutWriter \<lparr>guaranteedUntil = 0, enabled = False, expireTimer = None\<rparr>
     ''hi'' world0 =
     ((2, None), world0\<lparr>stdout := \<lparr>contents = ''hi'', closed = False\<rparr>, sink := []\<rparr>)"
proof -
  let ?on = "\<lparr>guaranteedUntil = 0, enabled = True, expireTimer = None\<rparr>"
  let ?off = "\<lparr>guaranteedUntil = 0, enabled = False, expireTimer = None\<rparr>"
  have 1: "snd (fst (toggleableWriter_Write StdoutWriter ?on ''hi'' world0)) = None"
    by (simp add: StdoutWriter_open world0_def)
  have 2: "snd (fst (toggleableWriter_Write StdoutWriter ?off ''hi'' world0)) = None"
    by (simp add: StdoutWriter_open world0_def)
  from primary_writer_gating [OF 1] primary_writer_gating [OF 2] show ?thesis
    by (simp add: world0_def)
qed

text \<open>
  Claim C8. With the signal off and the standard output open, so that the fallback
  stream takes the bytes, \<open>Write\<close> returns no error and reports the whole length of
  the buffer; the bytes are on the standard output and nothing went to the remote sink.
\<close>

theorem gated_off_write_succeeds:
  assumes "\<not> enabled m" and "\<not> closed (stdout w)"
  shows "fst (toggleableWriter_Write StdoutWriter m p w) = (length p, None) \<and>
         contents (stdout (snd (toggleableWriter_Write StdoutWriter m p w))) = contents (stdout w) @ p \<and>
         sink (snd (toggleableWriter_Write StdoutWriter m p w)) = sink w"
  using assms by (simp add: StdoutWriter_open)

theorem gated_off_write_succeeds_witness:
  "\<not> enabled \<lparr>guaranteedUntil = 0, enabled = False, expireTimer = None\<rparr> \<and>
   \<not> closed (stdout world0) \<and>
   fst (toggleableWriter_Write StdoutWriter
          \<lparr>guaranteedUntil = 0, enabled = False, expireTimer = None\<rparr> ''hi'' world0) = (2, None) \<and>
   contents (stdout (snd (toggleableWriter_Write StdoutWriter
          \<lparr>guaranteedUntil = 0, enabled = False, expireTimer = None\<rparr> ''hi'' world0))) = ''hi'' \<and>
   sink (snd (toggleableWriter_Write StdoutWriter
          \<lparr>guaranteedUntil = 0, enabled = False, expireTimer = None\<rparr> ''hi'' world0)) = []"
proof -
  let ?off = "\<lparr>guaranteedUntil = 0, enabled = False, expireTimer = None\<rparr>"
  have 1: "\<not> enabled ?off"
    by simp
  have 2: "\<not> closed (stdout world0)"
    by (simp add: world0_def)
  from gated_off_write_succeeds [OF 1 2, of "''hi''"] 2 show ?thesis
    by (simp add: world0_def)
qed

subsection \<open>The manager's own \<open>Write\<close>\<close>

text \<open>
  Claim C9. \<open>Manager.Write\<close> never touches the standard output or the standard error.
  With the signal off it changes nothing and still reports the whole buffer written,
  without error; with the signal on its only effect is one entry of severity Info in
  the remote sink.
\<close>

theorem Manager_Write_remote_only:
  "Manager_Write m p w =
     ((length p, None),
      if enabled m
      then w\<lparr>sink := sink w @ [\<lparr>Timestamp = 0, Severity = Info, Payload = p, Labels = Map.empty\<rparr>]\<rparr>
      else w) \<and>
   stdout (snd (Manager_Write m p w)) = stdout w \<and>
   stderr (snd (Manager_Write m p w)) = stderr w"
  by (simp add: Manager_Write_def severityWriter_def Logger_Log_def)


section \<open>Properties of the structured log handler\<close>

lemma Level_with_handler_attrs [simp]:
  "Level (with_handler_attrs s S r) = Level r"
  "Time (with_handler_attrs s S r) = Time r"
  "Message (with_handler_attrs s S r) = Message r"
  "Attrs (with_handler_attrs s S r) = Attrs r @ slice_read (attr_heap S) (attrs s)"
  by (simp_all add: with_handler_attrs_def AddAttrs_def)

lemma Handle_local_error:
  "stdoutLogger s (with_handler_attrs s S r) w = (Some e, w1) \<Longrightarrow>
   Handle vstr s S m r w = (Some e, w1)"
  by (simp add: Handle_def Let_def)

lemma Handle_local_ok:
  "stdoutLogger s (with_handler_attrs s S r) w = (None, w1) \<Longrightarrow>
   Handle vstr s S m r w =
     (None,
      if enabled m \<or> LevelError \<le> Level r
      then Logger_Log \<lparr>Timestamp = Time r, Severity = getSeverity (Level r), Payload = Message r,
                       Labels = build_labels vstr (Attrs r @ slice_read (attr_heap S) (attrs s))\<rparr> w1
      else w1)"
  by (auto simp add: Handle_def Let_def)

lemma TextHandler_open:
  "\<not> closed (stdout w) \<Longrightarrow>
   TextHandler_Handle render r w =
     (None, w\<lparr>stdout := (stdout w)\<lparr>contents := contents (stdout w) @ render r\<rparr>\<rparr>)"
  by (simp add: TextHandler_Handle_def Stdout_Write_open)

lemma TextHandler_closed:
  "closed (stdout w) \<Longrightarrow> TextHandler_Handle render r w = (Some ErrClosed, w)"
  by (simp add: TextHandler_Handle_def Stdout_Write_closed)


subsection \<open>Which records are shipped\<close>

text \<open>
  Claim C4. For every record handled, that is every call of \<open>Handle\<close> that returns no
  error, the environment after the call is the one the local handler left, with the
  record's entry added to the remote sink exactly when the signal is on or the level is
  at least \<open>LevelError\<close>. So a record at or above error level is shipped with the
  signal off, and one below it is not. (When the local handler fails, \<open>Handle\<close> returns
  its error before shipping anything: see \<open>Handle_local_error\<close>.)
\<close>

theorem Handle_ships_iff:
  assumes "fst (Handle vstr s S m r w) = None"
  shows "snd (Handle vstr s S m r w) =
     (if enabled m \<or> LevelError \<le> Level r
      then Logger_Log \<lparr>Timestamp = Time r, Severity = getSeverity (Level r), Payload = Message r,
                       Labels = build_labels vstr (Attrs r @ slice_read (attr_heap S) (attrs s))\<rparr>
             (snd (stdoutLogger s (with_handler_attrs s S r) w))
      else snd (stdoutLogger s (with_handler_attrs s S r) w))"
proof (cases "stdoutLogger s (with_handler_attrs s S r) w")
  case (Pair e w1)
  show ?thesis
  proof (cases e)
    case None
    with Pair show ?thesis by (simp add: Handle_local_ok)
  next
    case (Some err)
    with Pair assms show ?thesis by (simp add: Handle_local_error)
  qed
qed

theorem Handle_ships_iff_witness:
  "fst (Handle (\<lambda>v. v) demo_handler demo_store
          \<lparr>guaranteedUntil = 0, enabled = False, expireTimer = None\<rparr> (demo_record 8) world0) = None \<and>
   map Payload (sink (snd (Handle (\<lambda>v. v) demo_handler demo_store
          \<lparr>guaranteedUntil = 0, enabled = False, expireTimer = None\<rparr> (demo_record 8) world0)))
     = [''This is a log.''] \<and>
   fst (Handle (\<lambda>v. v) demo_handler demo_store
          \<lparr>guaranteedUntil = 0, enabled = False, expireTimer = None\<rparr> (demo_record 0) world0) = None \<and>
   sink (snd (Handle (\<lambda>v. v) demo_handler demo_store
          \<lparr>guaranteedUntil = 0, enabled = False, expireTimer = None\<rparr> (demo_record 0) world0)) = []"
proof -
  let ?off = "\<lparr>guaranteedUntil = 0, enabled = False, expireTimer = None\<rparr>"
  have o: "\<not> closed (stdout world0)"
    by (simp add: world0_def)
  have l: "stdoutLogger demo_handler = TextHandler_Handle Message"
    by (simp add: demo_handler_def SlogLogger_def)
  have k: "sink (snd (stdoutLogger demo_handler x world0)) = []" for x
  proof -
    have "sink (snd (stdoutLogger demo_handler x world0)) = sink world0"
      by (simp add: l TextHandler_open [OF o])
    then show ?thesis by (simp add: world0_def)
  qed
  have 1: "fst (Handle (\<lambda>v. v) demo_handler demo_store ?off (demo_record 8) world0) = None"
    by (simp add: Handle_def Let_def l TextHandler_open [OF o])
  have 2: "fst (Handle (\<lambda>v. v) demo_handler demo_store ?off (demo_record 0) world0) = None"
    by (simp add: Handle_def Let_def l TextHandler_open [OF o])
  have 3: "map Payload (sink (snd (Handle (\<lambda>v. v) demo_handler demo_store ?off (demo_record 8) world0)))
             = [''This is a log.'']"
    by (subst Handle_ships_iff [OF 1]) (simp add: LevelError_def demo_record_def Logger_Log_def k)
  have 4: "sink (snd (Handle (\<lambda>v. v) demo_handler demo_store ?off (demo_record 0) world0)) = []"
    by (subst Handle_ships_iff [OF 2]) (simp add: LevelError_def demo_record_def k)
  from 1 2 3 4 show ?thesis by simp
qed

section \<open>Derived handlers\<close>

lemma slices_Clone_eq:
  "slices_Clone gr H s =
     (if slice_read H s = [] then (s\<lparr>len := 0, cap := 0\<rparr>, H)
      else (\<lparr>ptr = length H, len = length (slice_read H s), cap = gr 0 (length (slice_read H s))\<rparr>,
            H @ [slice_read H s]))"
  by (auto simp: slices_Clone_def go_append_def Let_def slice_read_def)

lemma go_append_fresh:
  assumes "H1 = H @ [xs]" "ptr c1 = length H" "len c1 = length xs"
    and "go_append gr H1 c1 as = (c2, H2)"
  shows "(\<exists>ext. H2 = H @ ext) \<and> slice_read H2 c2 = xs @ as \<and> length H \<le> ptr c2
         \<and> ptr c2 < length H2 \<and> len c2 \<le> length (H2 ! ptr c2)"
  using assms
  by (auto simp: go_append_def Let_def slice_read_def nth_append split: if_splits)

lemma go_append_empty:
  assumes "len c1 = 0" "cap c1 = 0" "go_append gr H c1 as = (c2, H2)"
  shows "(\<exists>ext. H2 = H @ ext) \<and> slice_read H2 c2 = as
         \<and> (cap c2 = 0 \<and> len c2 = 0 \<or> length H \<le> ptr c2 \<and> ptr c2 < length H2 \<and> len c2 \<le> length (H2 ! ptr c2))"
  using assms
  by (auto simp: go_append_def Let_def slice_read_def nth_append split: if_splits)

lemma clone_append:
  assumes "slices_Clone gr H s = (c1, H1)" "go_append gr H1 c1 as = (c2, H2)"
  shows "(\<exists>ext. H2 = H @ ext) \<and> slice_read H2 c2 = slice_read H s @ as \<and> valid_slice H2 c2
         \<and> (cap c2 = 0 \<or> length H \<le> ptr c2)"
proof (cases "slice_read H s = []")
  case True
  with assms(1) have e: "len c1 = 0" "cap c1 = 0" and H1: "H1 = H"
    by (auto simp: slices_Clone_eq)
  from assms(2) H1 have "go_append gr H c1 as = (c2, H2)"
    by simp
  from go_append_empty [OF e this] True show ?thesis
    by (auto simp: valid_slice_def)
next
  case False
  with assms(1) have "H1 = H @ [slice_read H s]" "ptr c1 = length H" "len c1 = length (slice_read H s)"
    by (auto simp: slices_Clone_eq)
  from go_append_fresh [OF this assms(2)] show ?thesis
    by (auto simp: valid_slice_def)
qed

lemma slice_read_extend:
  "valid_slice H x \<Longrightarrow> slice_read (H @ ext) x = slice_read H x \<and> valid_slice (H @ ext) x"
  by (auto simp: valid_slice_def slice_read_def nth_append)

lemma Handle_cong_attrs:
  "stdoutLogger s' = stdoutLogger s \<Longrightarrow>
   slice_read (attr_heap S') (attrs s') = slice_read (attr_heap S) (attrs s) \<Longrightarrow>
   Handle vstr s' S' m r w = Handle vstr s S m r w"
  by (simp add: Handle_def with_handler_attrs_def)

lemma WithAttrs_props:
  assumes "WithAttrs h as S = (c, S')"
  shows "(\<exists>ext. attr_heap S' = attr_heap S @ ext)"
    and "slice_read (attr_heap S') (attrs c) = slice_read (attr_heap S) (attrs h) @ as"
    and "valid_slice (attr_heap S') (attrs c)"
    and "cap (attrs c) = 0 \<or> length (attr_heap S) \<le> ptr (attrs c)"
    and "group_heap S' = group_heap S" "groups c = groups h" "stdoutLogger c = stdoutLogger h"
    and "growslice S' = growslice S"
proof -
  obtain c1 H1 where 1: "slices_Clone (growslice S) (attr_heap S) (attrs h) = (c1, H1)"
    by (cases "slices_Clone (growslice S) (attr_heap S) (attrs h)")
  obtain c2 H2 where 2: "go_append (growslice S) H1 c1 as = (c2, H2)"
    by (cases "go_append (growslice S) H1 c1 as")
  from assms 1 2 have c: "c = h\<lparr>attrs := c2\<rparr>" and S': "S' = S\<lparr>attr_heap := H2\<rparr>"
    by (simp_all add: WithAttrs_def)
  from clone_append [OF 1 2] c S'
  show "(\<exists>ext. attr_heap S' = attr_heap S @ ext)"
    and "slice_read (attr_heap S') (attrs c) = slice_read (attr_heap S) (attrs h) @ as"
    and "valid_slice (attr_heap S') (attrs c)"
    and "cap (attrs c) = 0 \<or> length (attr_heap S) \<le> ptr (attrs c)"
    and "group_heap S' = group_heap S" "groups c = groups h" "stdoutLogger c = stdoutLogger h"
    and "growslice S' = growslice S"
    by simp_all
qed

lemma WithGroup_props:
  assumes "WithGroup h g S = (c, S')"
  shows "(\<exists>ext. group_heap S' = group_heap S @ ext)"
    and "slice_read (group_heap S') (groups c) = slice_read (group_heap S) (groups h) @ [g]"
    and "valid_slice (group_heap S') (groups c)"
    and "cap (groups c) = 0 \<or> length (group_heap S) \<le> ptr (groups c)"
    and "attr_heap S' = attr_heap S" "attrs c = attrs h" "stdoutLogger c = stdoutLogger h"
    and "growslice S' = growslice S"
proof -
  obtain c1 H1 where 1: "slices_Clone (growslice S) (group_heap S) (groups h) = (c1, H1)"
    by (cases "slices_Clone (growslice S) (group_heap S) (groups h)")
  obtain c2 H2 where 2: "go_append (growslice S) H1 c1 [g] = (c2, H2)"
    by (cases "go_append (growslice S) H1 c1 [g]")
  from assms 1 2 have c: "c = h\<lparr>groups := c2\<rparr>" and S': "S' = S\<lparr>group_heap := H2\<rparr>"
    by (simp_all add: WithGroup_def)
  from clone_append [OF 1 2] c S'
  show "(\<exists>ext. group_heap S' = group_heap S @ ext)"
    and "slice_read (group_heap S') (groups c) = slice_read (group_heap S) (groups h) @ [g]"
    and "valid_slice (group_heap S') (groups c)"
    and "cap (groups c) = 0 \<or> length (group_heap S) \<le> ptr (groups c)"
    and "attr_heap S' = attr_heap S" "attrs c = attrs h" "stdoutLogger c = stdoutLogger h"
    and "growslice S' = growslice S"
    by simp_all
qed


text \<open>
  What \<open>slices.Clone\<close> is for: two appends to the same slice with spare capacity write
  into the same cell, and the second overwrites what the first one added.
\<close>

lemma append_without_clone_shares:
  "(case go_append (\<lambda>c n. 2 * n) [[''a'']] \<lparr>ptr = 0, len = 1, cap = 4\<rparr> [''b''] of
      (c1, H1) \<Rightarrow>
        (case go_append (\<lambda>c n. 2 * n) H1 \<lparr>ptr = 0, len = 1, cap = 4\<rparr> [''c''] of
           (c2, H2) \<Rightarrow> (slice_read H1 c1, slice_read H2 c1, slice_read H2 c2)))
   = ([''a'', ''b''], [''a'', ''c''], [''a'', ''c''])"
  by code_simp

lemma siblings_isolated:
  assumes "valid_slice (attr_heap S) (attrs h)"
    and "WithAttrs h as S = (c1, S1)" and "WithAttrs h bs S1 = (c2, S2)"
  shows "slice_read (attr_heap S2) (attrs c1) = slice_read (attr_heap S) (attrs h) @ as \<and>
         slice_read (attr_heap S2) (attrs c2) = slice_read (attr_heap S) (attrs h) @ bs \<and>
         slice_read (attr_heap S2) (attrs h) = slice_read (attr_heap S) (attrs h)"
proof -
  note p1 = WithAttrs_props [OF assms(2)]
  note p2 = WithAttrs_props [OF assms(3)]
  from p1(1) obtain e1 where e1: "attr_heap S1 = attr_heap S @ e1" ..
  from p2(1) obtain e2 where e2: "attr_heap S2 = attr_heap S1 @ e2" ..
  have h1: "slice_read (attr_heap S1) (attrs h) = slice_read (attr_heap S) (attrs h)"
    and v1: "valid_slice (attr_heap S1) (attrs h)"
    using slice_read_extend [OF assms(1), of e1] e1 by simp_all
  have h2: "slice_read (attr_heap S2) (attrs h) = slice_read (attr_heap S1) (attrs h)"
    using slice_read_extend [OF v1, of e2] e2 by simp
  have c1: "slice_read (attr_heap S2) (attrs c1) = slice_read (attr_heap S1) (attrs c1)"
    using slice_read_extend [OF p1(3), of e2] e2 by simp
  from p1(2) p2(2) h1 h2 c1 show ?thesis by simp
qed

subsection \<open>Deriving a handler leaves its parent as it was\<close>



subsection \<open>Groups have no effect on what is written\<close>

text \<open>
  Claim C10. For every handler \<open>h\<close>, group name \<open>g\<close>, record, manager and environment,
  \<open>Handle\<close> through the handler that \<open>WithGroup\<close> returns gives the same result as
  through \<open>h\<close>: the same error, the same local output and the same remote entry. The
  group list of the derived handler is the copied list with \<open>g\<close> added, and \<open>Handle\<close>
  gives the same result whatever the group list and the store of group arrays are.
\<close>

theorem WithGroup_same_output:
  "Handle vstr (fst (WithGroup h g S)) (snd (WithGroup h g S)) m r w = Handle vstr h S m r w \<and>
   slice_read (group_heap (snd (WithGroup h g S))) (groups (fst (WithGroup h g S)))
     = slice_read (group_heap S) (groups h) @ [g] \<and>
   Handle vstr (h\<lparr>groups := gs\<rparr>) (S\<lparr>group_heap := G\<rparr>) m r w = Handle vstr h S m r w"
proof -
  have w: "WithGroup h g S = (fst (WithGroup h g S), snd (WithGroup h g S))"
    by simp
  note p = WithGroup_props [OF w]
  have 1: "Handle vstr (fst (WithGroup h g S)) (snd (WithGroup h g S)) m r w = Handle vstr h S m r w"
    by (rule Handle_cong_attrs) (simp_all add: p(5,6,7))
  have 3: "Handle vstr (h\<lparr>groups := gs\<rparr>) (S\<lparr>group_heap := G\<rparr>) m r w = Handle vstr h S m r w"
    by (rule Handle_cong_attrs) simp_all
  from 1 p(2) 3 show ?thesis by simp
qed


end
